theory Spec2Isabelle
  imports Main "HOL-Library.Word"
begin

section \<open>Host values: strings of UTF-16 code units, numbers, arrays\<close>

text \<open>
  A JavaScript string is a sequence of 16-bit code units; \<open>length\<close> counts code units
  (the "bytes" of the source's comments). Numbers that the scanner handles are integers;
  \<open>undefined\<close> is \<open>None\<close>.
\<close>

type_synonym code_unit = "16 word"
type_synonym jsstring = "code_unit list"

definition emptyString :: jsstring where
  "emptyString = []"

definition isLeadingSurrogate :: "code_unit \<Rightarrow> bool" where
  "isLeadingSurrogate u = (0xD800 \<le> u \<and> u \<le> 0xDBFF)"

definition isTrailingSurrogate :: "code_unit \<Rightarrow> bool" where
  "isTrailingSurrogate u = (0xDC00 \<le> u \<and> u \<le> 0xDFFF)"

text \<open>
  \<^verbatim>\<open>[ ...string ]\<close>: the string iterator yields one string per code point, a leading
  surrogate followed by a trailing one as a single two-unit string, any other unit alone.
\<close>

fun spread :: "jsstring \<Rightarrow> jsstring list" where
  "spread (a # b # rest) =
     (if isLeadingSurrogate a \<and> isTrailingSurrogate b
      then [a, b] # spread rest
      else [a] # spread (b # rest))"
| "spread [a] = [[a]]"
| "spread [] = []"

text \<open>
  \<^verbatim>\<open>string.replace(/[\uD800-\uDBFF][\uDC00-\uDFFF]/g, '_')\<close>: every surrogate pair, found
  left to right, is replaced by the one unit \<open>_\<close>.
\<close>

fun replaceSurrogatePairs :: "jsstring \<Rightarrow> jsstring" where
  "replaceSurrogatePairs (a # b # rest) =
     (if isLeadingSurrogate a \<and> isTrailingSurrogate b
      then 0x5F # replaceSurrogatePairs rest
      else a # replaceSurrogatePairs (b # rest))"
| "replaceSurrogatePairs [a] = [a]"
| "replaceSurrogatePairs [] = []"

text \<open>Reading an array at a number: \<open>undefined\<close> outside the array.\<close>

definition aget :: "'a list \<Rightarrow> int \<Rightarrow> 'a option" where
  "aget xs i = (if 0 \<le> i \<and> i < int (length xs) then Some (xs ! nat i) else None)"

text \<open>Writing an array at an index: JavaScript extends the array, leaving holes.\<close>

definition aset :: "'a option list \<Rightarrow> nat \<Rightarrow> 'a \<Rightarrow> 'a option list" where
  "aset xs i v =
     (if i < length xs then xs[i := Some v]
      else xs @ replicate (i - length xs) None @ [Some v])"

text \<open>\<^verbatim>\<open>stringToConsume[0]\<close>: the first code unit as a string, \<open>undefined\<close> on the empty string.\<close>

definition firstUnit :: "jsstring \<Rightarrow> jsstring option" where
  "firstUnit s = (case s of [] \<Rightarrow> None | c # _ \<Rightarrow> Some [c])"

text \<open>
  \<^verbatim>\<open>String.prototype.slice(start, end)\<close>: an \<open>undefined\<close> start is 0, an \<open>undefined\<close>
  end is the length, a negative bound counts from the end, both are clamped.
\<close>

definition jsslice :: "jsstring \<Rightarrow> int option \<Rightarrow> int option \<Rightarrow> jsstring" where
  "jsslice s start stop =
     (let len = int (length s);
          intStart = (case start of None \<Rightarrow> 0 | Some k \<Rightarrow> k);
          lo = (if intStart < 0 then max (len + intStart) 0 else min intStart len);
          intEnd = (case stop of None \<Rightarrow> len | Some k \<Rightarrow> k);
          hi = (if intEnd < 0 then max (len + intEnd) 0 else min intEnd len)
      in if lo \<ge> hi then [] else take (nat (hi - lo)) (drop (nat lo) s))"

text \<open>
  \<^verbatim>\<open>String.prototype.indexOf(searchString, position)\<close>: the first index at or after the
  clamped position where the search string occurs, \<open>-1\<close> when there is none.
\<close>

function indexOfFrom :: "jsstring \<Rightarrow> jsstring \<Rightarrow> nat \<Rightarrow> int" where
  "indexOfFrom s search i =
     (if i + length search \<le> length s
      then (if take (length search) (drop i s) = search then int i
            else indexOfFrom s search (i + 1))
      else - 1)"
  by pat_completeness auto
termination
  by (relation "measure (\<lambda>(s, search, i). length s + 1 - i)") auto

declare indexOfFrom.simps [simp del]

definition indexOf :: "jsstring \<Rightarrow> jsstring \<Rightarrow> int option \<Rightarrow> int" where
  "indexOf s search position =
     (let len = int (length s);
          pos = (case position of None \<Rightarrow> 0 | Some k \<Rightarrow> k);
          start = min (max pos 0) len
      in indexOfFrom s search (nat start))"

section \<open>Host values: regular expressions\<close>

text \<open>
  A \<^verbatim>\<open>RegExp\<close> object: its flags, its mutable \<open>lastIndex\<close>, and its matcher, which
  tries a match that begins exactly at a given index and gives the end index and the
  captures. \<open>exec\<close> follows RegExpBuiltinExec of the language specification.
\<close>

record regexp =
  sticky :: bool
  global :: bool
  unicode :: bool
  lastIndex :: "int option"
  matcher :: "jsstring \<Rightarrow> nat \<Rightarrow> (nat \<times> jsstring option list) option"

record match_result =
  index :: int
  matched :: jsstring
  captures :: "jsstring option list"

definition rlength :: "match_result \<Rightarrow> int" where
  "rlength r = 1 + int (length (captures r))"

definition ToLength :: "int option \<Rightarrow> nat" where
  "ToLength v = (case v of None \<Rightarrow> 0
                 | Some k \<Rightarrow> if k \<le> 0 then 0 else nat (min k (2 ^ 53 - 1)))"

definition AdvanceStringIndex :: "jsstring \<Rightarrow> nat \<Rightarrow> bool \<Rightarrow> nat" where
  "AdvanceStringIndex s i u =
     (if \<not> u then i + 1
      else if i + 1 \<ge> length s then i + 1
      else if isLeadingSurrogate (s ! i) \<and> isTrailingSurrogate (s ! (i + 1)) then i + 2
      else i + 1)"

function execLoop :: "regexp \<Rightarrow> jsstring \<Rightarrow> nat \<Rightarrow> (nat \<times> nat \<times> jsstring option list) option" where
  "execLoop R s i =
     (if i > length s then None
      else case matcher R s i of
             Some (e, caps) \<Rightarrow> Some (i, e, caps)
           | None \<Rightarrow> if sticky R then None
                     else execLoop R s (AdvanceStringIndex s i (unicode R)))"
  by pat_completeness auto
termination
  by (relation "measure (\<lambda>(R, s, i). length s + 1 - i)")
     (auto simp: AdvanceStringIndex_def)

declare execLoop.simps [simp del]

definition exec :: "regexp \<Rightarrow> jsstring \<Rightarrow> match_result option \<times> regexp" where
  "exec R s =
     (let i0 = (if \<not> global R \<and> \<not> sticky R then 0 else ToLength (lastIndex R))
      in case execLoop R s i0 of
           None \<Rightarrow>
             (None, if global R \<or> sticky R then R\<lparr>lastIndex := Some 0\<rparr> else R)
         | Some (i, e, caps) \<Rightarrow>
             (Some \<lparr>index = int i, matched = take (e - i) (drop i s), captures = caps\<rparr>,
              if global R \<or> sticky R then R\<lparr>lastIndex := Some (int e)\<rparr> else R))"

section \<open>The scanner\<close>

record StringScanner =
  charIndex :: int
  string :: jsstring
  chars :: "jsstring list"
  charCount :: int
  charsToBytes :: "int option list"
  multiByteMode :: bool

datatype error = StickyFlagRequired | GlobalFlagRequired

subsection \<open>Construction\<close>

function fillIdentity :: "nat \<Rightarrow> nat \<Rightarrow> int option list \<Rightarrow> int option list" where
  "fillIdentity i n cb =
     (if i < n then fillIdentity (i + 1) n (aset cb i (int i)) else cb)"
  by pat_completeness auto
termination
  by (relation "measure (\<lambda>(i, n, cb). n - i)") auto

declare fillIdentity.simps [simp del]

function fillOffsets :: "jsstring list \<Rightarrow> nat \<Rightarrow> nat \<Rightarrow> nat \<Rightarrow> int option list \<Rightarrow> int option list" where
  "fillOffsets cs n byteIndex ci cb =
     (if ci < n
      then fillOffsets cs n (byteIndex + length (cs ! ci)) (ci + 1) (aset cb ci (int byteIndex))
      else cb)"
  by pat_completeness auto
termination
  by (relation "measure (\<lambda>(cs, n, byteIndex, ci, cb). n - ci)") auto

declare fillOffsets.simps [simp del]

definition constructor :: "jsstring \<Rightarrow> StringScanner" where
  "constructor s =
     (let cs = spread s;
          n = length cs;
          cb = replicate n None
      in if n = length s
         then \<lparr>charIndex = 0, string = s, chars = cs, charCount = int n,
               charsToBytes = fillIdentity 0 n cb, multiByteMode = False\<rparr>
         else \<lparr>charIndex = 0, string = s, chars = cs, charCount = int n,
               charsToBytes = fillOffsets cs n 0 0 cb, multiByteMode = True\<rparr>)"

subsection \<open>Operations\<close>

text \<open>\<^verbatim>\<open>this.charsToBytes[k]\<close>: \<open>undefined\<close> at a hole or outside the array.\<close>

definition byteAt :: "StringScanner \<Rightarrow> int \<Rightarrow> int option" where
  "byteAt sc k = (case aget (charsToBytes sc) k of None \<Rightarrow> None | Some v \<Rightarrow> v)"

definition isEnd :: "StringScanner \<Rightarrow> bool" where
  "isEnd sc = (charIndex sc \<ge> charCount sc)"

definition charLength :: "StringScanner \<Rightarrow> jsstring \<Rightarrow> int" where
  "charLength sc str =
     (let len = int (length str)
      in if len < 2 \<or> \<not> multiByteMode sc then len
         else int (length (replaceSurrogatePairs str)))"

definition advance :: "StringScanner \<Rightarrow> int \<Rightarrow> StringScanner" where
  "advance sc count = sc\<lparr>charIndex := min (charCount sc) (charIndex sc + count)\<rparr>"

definition peek :: "StringScanner \<Rightarrow> int \<Rightarrow> jsstring option" where
  "peek sc count =
     (if charIndex sc \<ge> charCount sc then Some emptyString
      else if count = 1 then aget (chars sc) (charIndex sc)
      else Some (jsslice (string sc) (byteAt sc (charIndex sc)) (byteAt sc (charIndex sc + count))))"

definition consume :: "StringScanner \<Rightarrow> int \<Rightarrow> jsstring option \<times> StringScanner" where
  "consume sc count = (let cs = peek sc count in (cs, advance sc count))"

definition consumeMatch ::
  "StringScanner \<Rightarrow> regexp \<Rightarrow> (error + jsstring) \<times> StringScanner \<times> regexp" where
  "consumeMatch sc regex =
     (if \<not> sticky regex then (Inl StickyFlagRequired, sc, regex)
      else
        let regex1 = regex\<lparr>lastIndex := byteAt sc (charIndex sc)\<rparr>;
            (result, regex2) = exec regex1 (string sc)
        in case result of
             None \<Rightarrow> (Inr emptyString, sc, regex2)
           | Some r \<Rightarrow>
               if rlength r = 0 then (Inr emptyString, sc, regex2)
               else let m = matched r
                    in (Inr m, advance sc (charLength sc m), regex2))"

function consumeMatchFn_loop ::
  "StringScanner \<Rightarrow> (jsstring option \<Rightarrow> bool) \<Rightarrow> StringScanner" where
  "consumeMatchFn_loop sc fn =
     (if \<not> isEnd sc \<and> fn (peek sc 1) then consumeMatchFn_loop (advance sc 1) fn else sc)"
  by pat_completeness auto
termination
  by (relation "measure (\<lambda>(sc, fn). nat (charCount sc - charIndex sc))")
     (auto simp: isEnd_def advance_def)

declare consumeMatchFn_loop.simps [simp del]

definition consumeMatchFn ::
  "StringScanner \<Rightarrow> (jsstring option \<Rightarrow> bool) \<Rightarrow> jsstring \<times> StringScanner" where
  "consumeMatchFn sc fn =
     (let startIndex = charIndex sc;
          sc1 = consumeMatchFn_loop sc fn
      in (if charIndex sc1 > startIndex
          then jsslice (string sc1) (byteAt sc1 startIndex) (byteAt sc1 (charIndex sc1))
          else emptyString,
          sc1))"

definition consumeStringFast :: "StringScanner \<Rightarrow> jsstring \<Rightarrow> jsstring \<times> StringScanner" where
  "consumeStringFast sc stringToConsume =
     (if peek sc 1 = firstUnit stringToConsume
      then
        let len = int (length stringToConsume)
        in if len = 1 then (stringToConsume, advance sc 1)
           else if peek sc len = Some stringToConsume then (stringToConsume, advance sc len)
           else (emptyString, sc)
      else (emptyString, sc))"

definition consumeString :: "StringScanner \<Rightarrow> jsstring \<Rightarrow> jsstring \<times> StringScanner" where
  "consumeString sc stringToConsume =
     (let (r, sc1) = consumeStringFast sc stringToConsume
      in if r \<noteq> [] then (stringToConsume, sc1)
         else if \<not> multiByteMode sc1 then (emptyString, sc1)
         else
           let len = int (length stringToConsume);
               charLengthToMatch = charLength sc1 stringToConsume
           in if charLengthToMatch \<noteq> len \<and> Some stringToConsume = peek sc1 charLengthToMatch
              then (stringToConsume, advance sc1 charLengthToMatch)
              else (emptyString, sc1))"

definition consumeUntilMatch ::
  "StringScanner \<Rightarrow> regexp \<Rightarrow> (error + jsstring) \<times> StringScanner \<times> regexp" where
  "consumeUntilMatch sc regex =
     (if \<not> global regex then (Inl GlobalFlagRequired, sc, regex)
      else
        let byteIndex = byteAt sc (charIndex sc);
            regex1 = regex\<lparr>lastIndex := byteIndex\<rparr>;
            (m, regex2) = exec regex1 (string sc)
        in case m of
             None \<Rightarrow> (Inr emptyString, sc, regex2)
           | Some r \<Rightarrow>
               if Some (index r) = byteIndex then (Inr emptyString, sc, regex2)
               else let result = jsslice (string sc) byteIndex (Some (index r))
                    in (Inr result, advance sc (charLength sc result), regex2))"

definition consumeUntilString :: "StringScanner \<Rightarrow> jsstring \<Rightarrow> jsstring \<times> StringScanner" where
  "consumeUntilString sc searchString =
     (let byteIndex = byteAt sc (charIndex sc);
          matchByteIndex = indexOf (string sc) searchString byteIndex
      in if matchByteIndex \<le> 0 then (emptyString, sc)
         else let result = jsslice (string sc) byteIndex (Some matchByteIndex)
              in (result, advance sc (charLength sc result)))"

definition reset :: "StringScanner \<Rightarrow> int \<Rightarrow> StringScanner" where
  "reset sc idx =
     sc\<lparr>charIndex := (if idx \<ge> 0 then min (charCount sc) idx
                      else max 0 (charIndex sc + idx))\<rparr>"

subsection \<open>Sequences of operations\<close>

text \<open>
  One call of the scanner's interface, with its argument; a default argument is written
  out (\<^verbatim>\<open>advance()\<close> is \<open>Advance 1\<close>). A call either throws or returns; \<open>perform\<close>
  gives the outcome and the scanner after the call, and \<open>run\<close> performs a sequence of
  calls, which an uncaught error ends.
\<close>


datatype operation =
    Advance int | Reset int | Peek int | Consume int
  | ConsumeMatch regexp | ConsumeMatchFn "jsstring option \<Rightarrow> bool"
  | ConsumeString jsstring | ConsumeStringFast jsstring
  | ConsumeUntilMatch regexp | ConsumeUntilString jsstring

datatype outcome = Threw error | Returned "jsstring option"

definition fromResult :: "error + jsstring \<Rightarrow> outcome" where
  "fromResult r = (case r of Inl e \<Rightarrow> Threw e | Inr v \<Rightarrow> Returned (Some v))"

fun perform :: "StringScanner \<Rightarrow> operation \<Rightarrow> outcome \<times> StringScanner" where
  "perform sc (Advance n) = (Returned None, advance sc n)"
| "perform sc (Reset n) = (Returned None, reset sc n)"
| "perform sc (Peek n) = (Returned (peek sc n), sc)"
| "perform sc (Consume n) = (Returned (fst (consume sc n)), snd (consume sc n))"
| "perform sc (ConsumeMatch re) = (fromResult (fst (consumeMatch sc re)), fst (snd (consumeMatch sc re)))"
| "perform sc (ConsumeMatchFn fn) = (Returned (Some (fst (consumeMatchFn sc fn))), snd (consumeMatchFn sc fn))"
| "perform sc (ConsumeString str) = (Returned (Some (fst (consumeString sc str))), snd (consumeString sc str))"
| "perform sc (ConsumeStringFast str) = (Returned (Some (fst (consumeStringFast sc str))), snd (consumeStringFast sc str))"
| "perform sc (ConsumeUntilMatch re) = (fromResult (fst (consumeUntilMatch sc re)), fst (snd (consumeUntilMatch sc re)))"
| "perform sc (ConsumeUntilString str) = (Returned (Some (fst (consumeUntilString sc str))), snd (consumeUntilString sc str))"

fun run :: "StringScanner \<Rightarrow> operation list \<Rightarrow> StringScanner" where
  "run sc [] = sc"
| "run sc (op # ops) =
     (case perform sc op of
        (Threw e, sc1) \<Rightarrow> sc1
      | (Returned v, sc1) \<Rightarrow> run sc1 ops)"

fun nonNegativeCount :: "operation \<Rightarrow> bool" where
  "nonNegativeCount (Advance n) = (0 \<le> n)"
| "nonNegativeCount (Consume n) = (0 \<le> n)"
| "nonNegativeCount _ = True"

text \<open>The data model's bound on the position.\<close>

definition inRange :: "StringScanner \<Rightarrow> bool" where
  "inRange sc = (0 \<le> charIndex sc \<and> charIndex sc \<le> charCount sc)"


section \<open>Offsets of characters\<close>

text \<open>
  Two functions for stating what the table holds: the offsets that a left-to-right walk
  over the characters records, and the offset of the \<open>i\<close>-th character, the number of
  code units before it.
\<close>

fun offsetsFrom :: "nat \<Rightarrow> jsstring list \<Rightarrow> int option list" where
  "offsetsFrom b [] = []"
| "offsetsFrom b (c # cs) = Some (int b) # offsetsFrom (b + length c) cs"

definition offs :: "jsstring list \<Rightarrow> nat \<Rightarrow> nat" where
  "offs cs i = length (concat (take i cs))"

text \<open>
  The scanner on an input after \<^verbatim>\<open>advance(p)\<close>: the states in which the position is
  between 0 and the character count.
\<close>

definition scannerAt :: "jsstring \<Rightarrow> nat \<Rightarrow> StringScanner" where
  "scannerAt s p = advance (constructor s) (int p)"

text \<open>The search string stands in the input at an index.\<close>

definition occursAt :: "jsstring \<Rightarrow> jsstring \<Rightarrow> nat \<Rightarrow> bool" where
  "occursAt s search j =
     (j + length search \<le> length s \<and> take (length search) (drop j s) = search)"

section \<open>Concrete inputs\<close>

text \<open>ASCII text as code units, and the pattern \<^verbatim>\<open>\\d+\<close> with the sticky or the global flag.\<close>

definition utf16 :: "string \<Rightarrow> jsstring" where
  "utf16 s = map of_char s"

definition isDigit :: "code_unit \<Rightarrow> bool" where "isDigit u = (0x30 \<le> u \<and> u \<le> 0x39)"

definition digitsMatcher :: "jsstring \<Rightarrow> nat \<Rightarrow> (nat \<times> jsstring option list) option" where
  "digitsMatcher s i = (let n = length (takeWhile isDigit (drop i s)) in if n = 0 then None else Some (i + n, []))"

definition digitsY :: regexp where
  "digitsY = \<lparr>sticky = True, global = False, unicode = False, lastIndex = Some 0, matcher = digitsMatcher\<rparr>"
definition digitsG :: regexp where
  "digitsG = \<lparr>sticky = False, global = True, unicode = False, lastIndex = Some 0, matcher = digitsMatcher\<rparr>"


text \<open>The input \<^verbatim>\<open><a>\<close>, one character of two code units, \<^verbatim>\<open></a>\<close>.\<close>

definition scenarioB :: jsstring where
  "scenarioB = utf16 ''<a>'' @ [0xD83D, 0xDCA9] @ utf16 ''</a>''"

section \<open>The position stays in range\<close>

lemma charLength_nonneg: "0 \<le> charLength sc str"
  by (simp add: charLength_def Let_def)

lemma advance_inRange: "0 \<le> n \<Longrightarrow> inRange sc \<Longrightarrow> inRange (advance sc n)"
  by (simp add: inRange_def advance_def)

lemma advance_charCount [simp]: "charCount (advance sc n) = charCount sc"
  by (simp add: advance_def)

lemma reset_inRange: "inRange sc \<Longrightarrow> inRange (reset sc n)"
  by (simp add: inRange_def reset_def)

lemma reset_charCount [simp]: "charCount (reset sc n) = charCount sc"
  by (simp add: reset_def)

lemma loop_inRange: "inRange sc \<Longrightarrow> inRange (consumeMatchFn_loop sc fn) \<and> charCount (consumeMatchFn_loop sc fn) = charCount sc"
proof (induction sc fn rule: consumeMatchFn_loop.induct)
  case (1 sc fn)
  show ?case
  proof (cases "\<not> isEnd sc \<and> fn (peek sc 1)")
    case True
    then have "consumeMatchFn_loop sc fn = consumeMatchFn_loop (advance sc 1) fn"
      by (subst consumeMatchFn_loop.simps) simp
    moreover have "inRange (advance sc 1)" using "1.prems" by (simp add: advance_inRange)
    ultimately show ?thesis using "1.IH" True by simp
  next
    case False
    then have "consumeMatchFn_loop sc fn = sc"
      by (subst consumeMatchFn_loop.simps) auto
    then show ?thesis using "1.prems" by simp
  qed
qed

lemma consumeMatch_inRange:
  assumes "inRange sc"
  shows "inRange (fst (snd (consumeMatch sc re))) \<and>
         charCount (fst (snd (consumeMatch sc re))) = charCount sc"
proof (cases "sticky re")
  case False
  with assms show ?thesis by (simp add: consumeMatch_def)
next
  case True
  obtain result re2 where
    e: "exec (re\<lparr>lastIndex := byteAt sc (charIndex sc)\<rparr>) (string sc) = (result, re2)"
    by (cases "exec (re\<lparr>lastIndex := byteAt sc (charIndex sc)\<rparr>) (string sc)")
  show ?thesis
  proof (cases result)
    case None
    with True e assms show ?thesis by (simp add: consumeMatch_def)
  next
    case (Some r)
    with True e assms show ?thesis
      by (simp add: consumeMatch_def Let_def advance_inRange charLength_nonneg)
  qed
qed

lemma consumeUntilMatch_inRange:
  assumes "inRange sc"
  shows "inRange (fst (snd (consumeUntilMatch sc re))) \<and>
         charCount (fst (snd (consumeUntilMatch sc re))) = charCount sc"
proof (cases "global re")
  case False
  with assms show ?thesis by (simp add: consumeUntilMatch_def)
next
  case True
  obtain result re2 where
    e: "exec (re\<lparr>lastIndex := byteAt sc (charIndex sc)\<rparr>) (string sc) = (result, re2)"
    by (cases "exec (re\<lparr>lastIndex := byteAt sc (charIndex sc)\<rparr>) (string sc)")
  show ?thesis
  proof (cases result)
    case None
    with True e assms show ?thesis by (simp add: consumeUntilMatch_def Let_def)
  next
    case (Some r)
    with True e assms show ?thesis
      by (simp add: consumeUntilMatch_def Let_def advance_inRange charLength_nonneg)
  qed
qed

lemma consumeUntilString_inRange:
  "inRange sc \<Longrightarrow>
   inRange (snd (consumeUntilString sc str)) \<and>
   charCount (snd (consumeUntilString sc str)) = charCount sc"
  by (simp add: consumeUntilString_def Let_def advance_inRange charLength_nonneg)

lemma consumeStringFast_inRange:
  "inRange sc \<Longrightarrow>
   inRange (snd (consumeStringFast sc str)) \<and>
   charCount (snd (consumeStringFast sc str)) = charCount sc"
  by (simp add: consumeStringFast_def Let_def advance_inRange)

lemma consumeString_inRange:
  assumes "inRange sc"
  shows "inRange (snd (consumeString sc str)) \<and>
         charCount (snd (consumeString sc str)) = charCount sc"
proof -
  obtain r sc1 where f: "consumeStringFast sc str = (r, sc1)"
    by (cases "consumeStringFast sc str")
  from consumeStringFast_inRange[OF assms, of str] f
  have s1: "inRange sc1" "charCount sc1 = charCount sc" by simp_all
  show ?thesis
    using s1 by (simp add: consumeString_def f Let_def advance_inRange charLength_nonneg)
qed

lemma perform_inRange:
  assumes "nonNegativeCount op" "inRange sc"
  shows "inRange (snd (perform sc op)) \<and> charCount (snd (perform sc op)) = charCount sc"
proof (cases op)
  case (Advance n) with assms show ?thesis by (simp add: advance_inRange)
next
  case (Reset n) with assms show ?thesis by (simp add: reset_inRange)
next
  case (Peek n) with assms show ?thesis by simp
next
  case (Consume n) with assms show ?thesis by (simp add: consume_def advance_inRange)
next
  case (ConsumeMatch re) with assms show ?thesis by (simp add: consumeMatch_inRange)
next
  case (ConsumeMatchFn fn) with assms show ?thesis
    by (simp add: consumeMatchFn_def Let_def loop_inRange)
next
  case (ConsumeString str) with assms show ?thesis by (simp add: consumeString_inRange)
next
  case (ConsumeStringFast str) with assms show ?thesis by (simp add: consumeStringFast_inRange)
next
  case (ConsumeUntilMatch re) with assms show ?thesis by (simp add: consumeUntilMatch_inRange)
next
  case (ConsumeUntilString str) with assms show ?thesis by (simp add: consumeUntilString_inRange)
qed

lemma run_inRange:
  "list_all nonNegativeCount ops \<Longrightarrow> inRange sc \<Longrightarrow>
   inRange (run sc ops) \<and> charCount (run sc ops) = charCount sc"
proof (induction ops arbitrary: sc)
  case Nil then show ?case by simp
next
  case (Cons op ops)
  from Cons.prems have a: "nonNegativeCount op" and b: "list_all nonNegativeCount ops" by simp_all
  from perform_inRange[OF a Cons.prems(2)] have c: "inRange (snd (perform sc op))" "charCount (snd (perform sc op)) = charCount sc" by simp_all
  show ?case
  proof (cases "perform sc op")
    case (Pair out sc1)
    with c have d: "inRange sc1" "charCount sc1 = charCount sc" by simp_all
    show ?thesis
    proof (cases out)
      case (Threw e) with Pair d show ?thesis by simp
    next
      case (Returned v)
      with Pair d Cons.IH[OF b d(1)] show ?thesis by simp
    qed
  qed
qed

lemma constructor_inRange: "inRange (constructor s)"
  by (simp add: inRange_def constructor_def Let_def)

lemma constructor_charCount: "charCount (constructor s) = int (length (spread s))"
  by (simp add: constructor_def Let_def)

text \<open>
  Claim C9, as amended. From a freshly constructed scanner, after any sequence of calls
  in which every count given to \<open>advance\<close> and \<open>consume\<close> is non-negative (\<open>reset\<close>
  and \<open>peek\<close> take any integer), the position is between 0 and the character count.
\<close>

theorem position_invariant:
  "list_all nonNegativeCount ops \<Longrightarrow>
   0 \<le> charIndex (run (constructor s) ops) \<and>
   charIndex (run (constructor s) ops) \<le> charCount (run (constructor s) ops)"
  using run_inRange[OF _ constructor_inRange, of ops s] by (simp add: inRange_def)

text \<open>
  With an arbitrary integer the claim fails: \<open>advance\<close> clamps at the end of the input
  only, so a negative count moves a fresh scanner to a negative position.
\<close>

theorem position_invariant_counterexample:
  "charIndex (run (constructor (utf16 ''a'')) [Advance (- 1)]) = - 1"
  by (simp add: utf16_def constructor_def advance_def isLeadingSurrogate_def isTrailingSurrogate_def)

theorem position_invariant_witness:
  "list_all nonNegativeCount [Advance 5, Reset (- 2), Consume 1] \<and>
   charIndex (run (constructor (utf16 ''abc'')) [Advance 5, Reset (- 2), Consume 1]) = 2"
  using position_invariant[of "[Advance 5, Reset (- 2), Consume 1]" "utf16 ''abc''"]
  by (simp add: utf16_def constructor_def advance_def reset_def consume_def peek_def aget_def
      isLeadingSurrogate_def isTrailingSurrogate_def)

section \<open>The pattern's incoming search offset\<close>

text \<open>
  Claim C10. Two calls of \<open>consumeMatch\<close>, or of \<open>consumeUntilMatch\<close>, in the same
  scanner state with patterns that differ in their incoming \<open>lastIndex\<close> only return the
  same result and leave the scanner in the same state: the call overwrites \<open>lastIndex\<close>
  before it executes the pattern.
\<close>

theorem lastIndex_noninterference:
  "fst (consumeMatch sc (re\<lparr>lastIndex := a\<rparr>)) = fst (consumeMatch sc (re\<lparr>lastIndex := b\<rparr>)) \<and>
   fst (snd (consumeMatch sc (re\<lparr>lastIndex := a\<rparr>))) = fst (snd (consumeMatch sc (re\<lparr>lastIndex := b\<rparr>))) \<and>
   fst (consumeUntilMatch sc (re\<lparr>lastIndex := a\<rparr>)) = fst (consumeUntilMatch sc (re\<lparr>lastIndex := b\<rparr>)) \<and>
   fst (snd (consumeUntilMatch sc (re\<lparr>lastIndex := a\<rparr>))) = fst (snd (consumeUntilMatch sc (re\<lparr>lastIndex := b\<rparr>)))"
  by (simp add: consumeMatch_def consumeUntilMatch_def)


section \<open>Errors\<close>

lemma consumeMatch_isl: "isl (fst (consumeMatch sc re)) = (\<not> sticky re)"
  by (simp add: consumeMatch_def Let_def split: prod.splits option.splits)

lemma consumeUntilMatch_isl: "isl (fst (consumeUntilMatch sc re)) = (\<not> global re)"
  by (simp add: consumeUntilMatch_def Let_def split: prod.splits option.splits)

lemma fromResult_Threw: "(\<exists>e. fromResult r = Threw e) = isl r"
  by (cases r) (simp_all add: fromResult_def)

text \<open>
  Claim C7. \<open>consumeMatch\<close> throws exactly when its pattern lacks the sticky flag, and
  then neither the scanner nor the pattern has changed; \<open>consumeUntilMatch\<close> throws exactly
  when its pattern lacks the global flag; no other call of the interface throws.
\<close>

theorem contract_validation:
  "(isl (fst (consumeMatch sc re)) = (\<not> sticky re)) \<and>
   (\<not> sticky re \<longrightarrow> consumeMatch sc re = (Inl StickyFlagRequired, sc, re)) \<and>
   (isl (fst (consumeUntilMatch sc re)) = (\<not> global re)) \<and>
   (\<not> global re \<longrightarrow> consumeUntilMatch sc re = (Inl GlobalFlagRequired, sc, re)) \<and>
   ((\<exists>e. fst (perform sc op) = Threw e) =
      (case op of ConsumeMatch r \<Rightarrow> \<not> sticky r
               | ConsumeUntilMatch r \<Rightarrow> \<not> global r
               | _ \<Rightarrow> False))"
proof -
  have a: "\<not> sticky re \<longrightarrow> consumeMatch sc re = (Inl StickyFlagRequired, sc, re)"
    by (simp add: consumeMatch_def)
  have b: "\<not> global re \<longrightarrow> consumeUntilMatch sc re = (Inl GlobalFlagRequired, sc, re)"
    by (simp add: consumeUntilMatch_def)
  have c: "(\<exists>e. fst (perform sc op) = Threw e) =
      (case op of ConsumeMatch r \<Rightarrow> \<not> sticky r
               | ConsumeUntilMatch r \<Rightarrow> \<not> global r
               | _ \<Rightarrow> False)"
    by (cases op) (simp_all add: fromResult_Threw consumeMatch_isl consumeUntilMatch_isl)
  from a b c show ?thesis
    by (simp add: consumeMatch_isl consumeUntilMatch_isl)
qed

theorem contract_validation_witness:
  "\<not> sticky digitsG \<and>
   consumeMatch (constructor (utf16 ''42'')) digitsG =
     (Inl StickyFlagRequired, constructor (utf16 ''42''), digitsG) \<and>
   \<not> global digitsY \<and>
   consumeUntilMatch (constructor (utf16 ''42'')) digitsY =
     (Inl GlobalFlagRequired, constructor (utf16 ''42''), digitsY) \<and>
   fst (perform (constructor (utf16 ''42'')) (ConsumeMatch digitsG)) = Threw StickyFlagRequired"
  using contract_validation[of "constructor (utf16 ''42'')" digitsG "ConsumeMatch digitsG"]
        contract_validation[of "constructor (utf16 ''42'')" digitsY "ConsumeMatch digitsG"]
  by (simp add: digitsG_def digitsY_def fromResult_def)

section \<open>The fast and the general literal match\<close>

lemma replaceSurrogatePairs_single:
  "list_all (\<lambda>c. length c = 1) (spread L) \<Longrightarrow> replaceSurrogatePairs L = L"
  by (induction L rule: spread.induct) (auto split: if_splits)

lemma consumeStringFast_result:
  "fst (consumeStringFast sc L) = L \<or> fst (consumeStringFast sc L) = []"
  by (simp add: consumeStringFast_def Let_def emptyString_def)

text \<open>
  Claim C4. For a literal whose characters each occupy one code unit, \<open>consumeString\<close>
  and \<open>consumeStringFast\<close> called in the same state return the same string and leave the
  same scanner, whatever the input and the position.
\<close>

theorem fast_slow_equivalence:
  assumes "list_all (\<lambda>c. length c = 1) (spread L)"
  shows "consumeString sc L = consumeStringFast sc L"
proof -
  obtain r sc1 where f: "consumeStringFast sc L = (r, sc1)"
    by (cases "consumeStringFast sc L")
  from consumeStringFast_result[of sc L] f have r: "r = L \<or> r = []" by simp
  have cl: "charLength sc1 L = int (length L)"
    by (simp add: charLength_def Let_def replaceSurrogatePairs_single[OF assms])
  show ?thesis
    using r by (auto simp: consumeString_def f cl emptyString_def)
qed

theorem fast_slow_equivalence_witness:
  "list_all (\<lambda>c. length c = 1) (spread (utf16 ''<foo'')) \<and>
   consumeString (constructor (utf16 ''<foo>'')) (utf16 ''<foo'') =
     consumeStringFast (constructor (utf16 ''<foo>'')) (utf16 ''<foo'') \<and>
   fst (consumeStringFast (constructor (utf16 ''<foo>'')) (utf16 ''<foo'')) = utf16 ''<foo'' \<and>
   charIndex (snd (consumeStringFast (constructor (utf16 ''<foo>'')) (utf16 ''<foo''))) = 4"
proof -
  have h: "list_all (\<lambda>c. length c = 1) (spread (utf16 ''<foo''))"
    by (simp add: utf16_def isLeadingSurrogate_def isTrailingSurrogate_def)
  have e: "consumeStringFast (constructor (utf16 ''<foo>'')) (utf16 ''<foo'') =
             (utf16 ''<foo'', advance (constructor (utf16 ''<foo>'')) 4)"
    by code_simp
  show ?thesis
    using h fast_slow_equivalence[OF h, of "constructor (utf16 ''<foo>'')"] e
    by (simp add: advance_def constructor_def Let_def utf16_def isLeadingSurrogate_def isTrailingSurrogate_def)
qed


section \<open>The index mapping\<close>

lemma fillIdentity_eq:
  "length cb = n \<Longrightarrow> i \<le> n \<Longrightarrow>
   fillIdentity i n cb = take i cb @ map (\<lambda>k. Some (int k)) [i..<n]"
proof (induction i n cb rule: fillIdentity.induct)
  case (1 i n cb)
  show ?case
  proof (cases "i < n")
    case True
    have "fillIdentity i n cb = fillIdentity (i + 1) n (aset cb i (int i))"
      using True by (subst fillIdentity.simps) simp
    also have "\<dots> = take (i + 1) (aset cb i (int i)) @ map (\<lambda>k. Some (int k)) [i + 1..<n]"
      using True "1.prems" by (intro "1.IH") (simp_all add: aset_def)
    also have "take (i + 1) (aset cb i (int i)) = take i cb @ [Some (int i)]"
      using True "1.prems" by (simp add: aset_def take_Suc_conv_app_nth)
    finally show ?thesis using True by (simp add: upt_conv_Cons)
  next
    case False
    with "1.prems" show ?thesis by (subst fillIdentity.simps) simp
  qed
qed

lemma fillOffsets_eq:
  "length cb = n \<Longrightarrow> length cs = n \<Longrightarrow> ci \<le> n \<Longrightarrow>
   fillOffsets cs n b ci cb = take ci cb @ offsetsFrom b (drop ci cs)"
proof (induction cs n b ci cb rule: fillOffsets.induct)
  case (1 cs n b ci cb)
  show ?case
  proof (cases "ci < n")
    case True
    have "fillOffsets cs n b ci cb =
          fillOffsets cs n (b + length (cs ! ci)) (ci + 1) (aset cb ci (int b))"
      using True by (subst fillOffsets.simps) simp
    also have "\<dots> = take (ci + 1) (aset cb ci (int b)) @
                     offsetsFrom (b + length (cs ! ci)) (drop (ci + 1) cs)"
      using True "1.prems" by (intro "1.IH") (simp_all add: aset_def)
    finally have step: "fillOffsets cs n b ci cb =
        take (ci + 1) (aset cb ci (int b)) @
        offsetsFrom (b + length (cs ! ci)) (drop (ci + 1) cs)" .
    have t: "take (ci + 1) (aset cb ci (int b)) = take ci cb @ [Some (int b)]"
      using True "1.prems" by (simp add: aset_def take_Suc_conv_app_nth)
    have d: "drop ci cs = cs ! ci # drop (ci + 1) cs"
      using True "1.prems" by (simp add: Cons_nth_drop_Suc)
    show ?thesis by (simp only: step t d offsetsFrom.simps append_assoc append_Cons append_Nil)
  next
    case False
    with "1.prems" show ?thesis by (subst fillOffsets.simps) simp
  qed
qed

lemma length_offsetsFrom [simp]: "length (offsetsFrom b cs) = length cs"
  by (induction cs arbitrary: b) simp_all

lemma offsetsFrom_nth:
  "i < length cs \<Longrightarrow> offsetsFrom b cs ! i = Some (int (b + offs cs i))"
proof (induction cs arbitrary: b i)
  case Nil then show ?case by simp
next
  case (Cons c cs)
  then show ?case by (cases i) (simp_all add: offs_def)
qed

lemma length_spread_le: "length (spread s) \<le> length s"
  by (induction s rule: spread.induct) auto

lemma concat_spread [simp]: "concat (spread s) = s"
  by (induction s rule: spread.induct) simp_all

lemma spread_char_length: "c \<in> set (spread s) \<Longrightarrow> length c = 1 \<or> length c = 2"
  by (induction s rule: spread.induct) (auto split: if_splits)

lemma spread_all_single:
  "length (spread s) = length s \<Longrightarrow> list_all (\<lambda>c. length c = 1) (spread s)"
proof (induction s rule: spread.induct)
  case (1 a b rest)
  show ?case
  proof (cases "isLeadingSurrogate a \<and> isTrailingSurrogate b")
    case True
    with "1.prems" length_spread_le[of rest] show ?thesis by simp
  next
    case False
    with "1.prems" "1.IH"(2) show ?thesis by simp
  qed
qed simp_all

lemma offs_single:
  "list_all (\<lambda>c. length c = 1) cs \<Longrightarrow> i \<le> length cs \<Longrightarrow> offs cs i = i"
proof (induction cs arbitrary: i)
  case Nil then show ?case by (simp add: offs_def)
next
  case (Cons c cs)
  then show ?case by (cases i) (simp_all add: offs_def)
qed

lemma length_charsToBytes: "length (charsToBytes (constructor s)) = length (spread s)"
  by (simp add: constructor_def Let_def fillIdentity_eq fillOffsets_eq)

lemma charsToBytes_nth:
  assumes "i < length (spread s)"
  shows "charsToBytes (constructor s) ! i = Some (int (offs (spread s) i))"
proof (cases "length (spread s) = length s")
  case True
  have "offs (spread s) i = i"
    using spread_all_single[OF True] assms by (simp add: offs_single)
  then show ?thesis using True assms
    by (simp add: constructor_def Let_def fillIdentity_eq)
next
  case False
  then show ?thesis using assms
    by (simp add: constructor_def Let_def fillOffsets_eq offsetsFrom_nth)
qed

lemma chars_constructor [simp]: "chars (constructor s) = spread s"
  by (simp add: constructor_def Let_def)

lemma string_constructor [simp]: "string (constructor s) = s"
  by (simp add: constructor_def Let_def)

lemma charCount_constructor [simp]: "charCount (constructor s) = int (length (spread s))"
  by (simp add: constructor_def Let_def)

lemma multiByteMode_constructor [simp]:
  "multiByteMode (constructor s) = (length (spread s) \<noteq> length s)"
  by (simp add: constructor_def Let_def)

text \<open>The table read at a number, for a scanner at any position.\<close>

lemma byteAt_charIndex [simp]: "byteAt (sc\<lparr>charIndex := p\<rparr>) k = byteAt sc k"
  by (simp add: byteAt_def)

lemma byteAt_constructor:
  "byteAt (constructor s) k =
     (if 0 \<le> k \<and> k < int (length (spread s)) then Some (int (offs (spread s) (nat k))) else None)"
proof (cases "0 \<le> k \<and> k < int (length (spread s))")
  case True
  then have "nat k < length (spread s)" by linarith
  from charsToBytes_nth[OF this] True show ?thesis
    by (simp add: byteAt_def aget_def length_charsToBytes)
next
  case False
  then show ?thesis
    by (auto simp add: byteAt_def aget_def length_charsToBytes)
qed

lemma offs_le: "offs cs i \<le> length (concat cs)"
proof -
  have "concat cs = concat (take i cs) @ concat (drop i cs)"
    by (metis append_take_drop_id concat_append)
  then show ?thesis by (simp add: offs_def)
qed

lemma offs_Suc: "i < length cs \<Longrightarrow> offs cs (Suc i) = offs cs i + length (cs ! i)"
  by (simp add: offs_def take_Suc_conv_app_nth)

lemma offs_all: "length cs \<le> i \<Longrightarrow> offs cs i = length (concat cs)"
  by (simp add: offs_def)

lemma offs_mono: "i \<le> j \<Longrightarrow> offs cs i \<le> offs cs j"
proof -
  assume "i \<le> j"
  then have "take i cs = take i (take j cs)" by (simp add: min_def)
  then have "offs cs i = offs (take j cs) i" by (simp add: offs_def)
  also have "\<dots> \<le> length (concat (take j cs))" by (rule offs_le)
  finally show ?thesis by (simp add: offs_def)
qed

text \<open>The code units between two character offsets are the characters between them.\<close>

lemma between_offs:
  "i \<le> j \<Longrightarrow>
   take (offs cs j - offs cs i) (drop (offs cs i) (concat cs)) = concat (take (j - i) (drop i cs))"
proof -
  assume ij: "i \<le> j"
  have "cs = take i cs @ take (j - i) (drop i cs) @ drop j cs"
    using ij by (metis append_take_drop_id drop_drop take_drop le_add_diff_inverse add.commute)
  then have c: "concat cs = concat (take i cs) @ concat (take (j - i) (drop i cs)) @ concat (drop j cs)"
    by (metis concat_append)
  have "take j cs = take i cs @ take (j - i) (drop i cs)"
    using ij by (metis le_add_diff_inverse take_add)
  then have o: "offs cs j = offs cs i + length (concat (take (j - i) (drop i cs)))"
    by (simp add: offs_def)
  have "offs cs j - offs cs i = length (concat (take (j - i) (drop i cs)))"
    using o by simp
  moreover have "offs cs i = length (concat (take i cs))"
    by (simp add: offs_def)
  moreover have "take (length (concat (take (j - i) (drop i cs))))
       (drop (length (concat (take i cs)))
         (concat (take i cs) @ concat (take (j - i) (drop i cs)) @ concat (drop j cs))) =
     concat (take (j - i) (drop i cs))"
    by simp
  ultimately show ?thesis using c by simp
qed


lemma slice_Some_Some:
  "a \<le> b \<Longrightarrow> b \<le> length s \<Longrightarrow>
   jsslice s (Some (int a)) (Some (int b)) = take (b - a) (drop a s)"
  by (simp add: jsslice_def Let_def min_def nat_diff_distrib')

lemma slice_Some_None:
  "a \<le> length s \<Longrightarrow> jsslice s (Some (int a)) None = drop a s"
  by (simp add: jsslice_def Let_def min_def nat_diff_distrib')

lemma offs_spread_le: "offs (spread s) i \<le> length s"
  using offs_le[of "spread s" i] by simp

lemma slice_byteAt:
  assumes "i < length (spread s)" "i \<le> j"
  shows "jsslice s (byteAt (constructor s) (int i)) (byteAt (constructor s) (int j)) =
         concat (take (j - i) (drop i (spread s)))"
proof (cases "j < length (spread s)")
  case True
  have "jsslice s (byteAt (constructor s) (int i)) (byteAt (constructor s) (int j)) =
        take (offs (spread s) j - offs (spread s) i) (drop (offs (spread s) i) s)"
    using assms True
    by (simp add: byteAt_constructor slice_Some_Some offs_mono offs_spread_le)
  also have "\<dots> = concat (take (j - i) (drop i (spread s)))"
    using between_offs[OF assms(2), of "spread s"] by simp
  finally show ?thesis .
next
  case False
  then have oj: "offs (spread s) j = length s" by (simp add: offs_all)
  have "jsslice s (byteAt (constructor s) (int i)) (byteAt (constructor s) (int j)) =
        drop (offs (spread s) i) s"
    using assms False by (simp add: byteAt_constructor slice_Some_None offs_spread_le)
  also have "\<dots> = take (offs (spread s) j - offs (spread s) i) (drop (offs (spread s) i) s)"
    by (simp add: oj)
  also have "\<dots> = concat (take (j - i) (drop i (spread s)))"
    using between_offs[OF assms(2), of "spread s"] by simp
  finally show ?thesis .
qed

text \<open>
  Claim C1. For every input, construction gives the code-point decomposition of the
  input and a table with: entry 0 equal to 0 when the input is not empty; consecutive
  entries non-decreasing, their difference the number of code units of the character;
  the slice of the input between the entries of \<open>i\<close> and \<open>i + 1\<close> (to the end of the
  input for the last character, whose next entry is \<open>undefined\<close>) equal to the
  \<open>i\<close>-th character; and \<open>multiByteMode\<close> true exactly when the character count
  differs from the number of code units.
\<close>

theorem index_mapping_correct:
  "chars (constructor s) = spread s \<and>
   concat (chars (constructor s)) = s \<and>
   charCount (constructor s) = int (length (chars (constructor s))) \<and>
   (s \<noteq> [] \<longrightarrow> byteAt (constructor s) 0 = Some 0) \<and>
   (\<forall>i. Suc i < length (chars (constructor s)) \<longrightarrow>
      (\<exists>a b. byteAt (constructor s) (int i) = Some a \<and>
             byteAt (constructor s) (int i + 1) = Some b \<and>
             a \<le> b \<and> b - a = int (length (chars (constructor s) ! i)))) \<and>
   (\<forall>i. i < length (chars (constructor s)) \<longrightarrow>
      jsslice s (byteAt (constructor s) (int i)) (byteAt (constructor s) (int i + 1)) =
        chars (constructor s) ! i) \<and>
   multiByteMode (constructor s) = (charCount (constructor s) \<noteq> int (length s))"
proof -
  have z: "s \<noteq> [] \<longrightarrow> byteAt (constructor s) 0 = Some 0"
  proof
    assume "s \<noteq> []"
    then have "spread s \<noteq> []" by (cases s rule: spread.cases) simp_all
    then show "byteAt (constructor s) 0 = Some 0"
      by (simp add: byteAt_constructor offs_def)
  qed
  have d: "\<forall>i. Suc i < length (chars (constructor s)) \<longrightarrow>
      (\<exists>a b. byteAt (constructor s) (int i) = Some a \<and>
             byteAt (constructor s) (int i + 1) = Some b \<and>
             a \<le> b \<and> b - a = int (length (chars (constructor s) ! i)))"
  proof (intro allI impI)
    fix i assume i: "Suc i < length (chars (constructor s))"
    have e: "int i + 1 = int (Suc i)" by simp
    show "\<exists>a b. byteAt (constructor s) (int i) = Some a \<and>
             byteAt (constructor s) (int i + 1) = Some b \<and>
             a \<le> b \<and> b - a = int (length (chars (constructor s) ! i))"
    proof -
      have n: "nat (1 + int i) = Suc i" by simp
      show ?thesis unfolding e using i by (simp add: byteAt_constructor offs_Suc n)
    qed
  qed
  have sl: "\<forall>i. i < length (chars (constructor s)) \<longrightarrow>
      jsslice s (byteAt (constructor s) (int i)) (byteAt (constructor s) (int i + 1)) =
        chars (constructor s) ! i"
  proof (intro allI impI)
    fix i assume i: "i < length (chars (constructor s))"
    then have i': "i < length (spread s)" by simp
    have e: "int i + 1 = int (Suc i)" by simp
    have "jsslice s (byteAt (constructor s) (int i)) (byteAt (constructor s) (int i + 1)) =
          concat (take (Suc i - i) (drop i (spread s)))"
      unfolding e by (rule slice_byteAt[OF i']) simp
    also have "\<dots> = spread s ! i"
      using i' by (simp add: take_Suc_conv_app_nth)
    finally show "jsslice s (byteAt (constructor s) (int i)) (byteAt (constructor s) (int i + 1)) =
        chars (constructor s) ! i" by simp
  qed
  from z d sl show ?thesis by simp
qed

theorem index_mapping_correct_witness:
  "[0x61, 0xD83D, 0xDCA9, 0x62] \<noteq> ([] :: jsstring) \<and>
   chars (constructor [0x61, 0xD83D, 0xDCA9, 0x62]) = [[0x61], [0xD83D, 0xDCA9], [0x62]] \<and>
   byteAt (constructor [0x61, 0xD83D, 0xDCA9, 0x62]) 0 = Some 0 \<and>
   byteAt (constructor [0x61, 0xD83D, 0xDCA9, 0x62]) 1 = Some 1 \<and>
   byteAt (constructor [0x61, 0xD83D, 0xDCA9, 0x62]) 2 = Some 3 \<and>
   jsslice [0x61, 0xD83D, 0xDCA9, 0x62] (Some 1) (Some 3) = [0xD83D, 0xDCA9] \<and>
   multiByteMode (constructor [0x61, 0xD83D, 0xDCA9, 0x62])"
proof -
  let ?w = "[0x61, 0xD83D, 0xDCA9, 0x62] :: jsstring"
  have c: "chars (constructor ?w) = [[0x61], [0xD83D, 0xDCA9], [0x62]]"
    by code_simp
  have ne: "?w \<noteq> []" by simp
  note T = index_mapping_correct[of ?w]
  from T ne have z: "byteAt (constructor ?w) 0 = Some 0" by blast
  have b1: "byteAt (constructor ?w) 1 = Some 1" by code_simp
  have b2: "byteAt (constructor ?w) 2 = Some 3" by code_simp
  from T have "\<forall>i. i < length (chars (constructor ?w)) \<longrightarrow>
      jsslice ?w (byteAt (constructor ?w) (int i)) (byteAt (constructor ?w) (int i + 1)) =
        chars (constructor ?w) ! i" by blast
  then have "1 < length (chars (constructor ?w)) \<longrightarrow>
      jsslice ?w (byteAt (constructor ?w) (int 1)) (byteAt (constructor ?w) (int 1 + 1)) =
        chars (constructor ?w) ! 1" by (rule spec)
  then have sl: "jsslice ?w (Some 1) (Some 3) = [0xD83D, 0xDCA9]"
    unfolding c by (simp add: b1 b2)
  have m: "multiByteMode (constructor ?w)" by code_simp
  show ?thesis by (intro conjI ne c z b1 b2 sl m)
qed

section \<open>Peeking and consuming\<close>

lemma length_replaceSurrogatePairs:
  "length (replaceSurrogatePairs t) = length (spread t)"
  by (induction t rule: spread.induct) simp_all


lemma spread_Cons: "\<exists>y ys. spread (b # rest) = (b # y) # ys"
  by (cases rest) simp_all

lemma spread_drop: "\<exists>t. drop p (spread s) = spread t"
proof (induction s arbitrary: p rule: spread.induct)
  case (1 a b rest)
  show ?case
  proof (cases p)
    case 0
    then show ?thesis by (intro exI[of _ "a # b # rest"]) simp
  next
    case (Suc q)
    show ?thesis
    proof (cases "isLeadingSurrogate a \<and> isTrailingSurrogate b")
      case True
      with "1.IH"(1)[OF True, of q] Suc show ?thesis by auto
    next
      case False
      with "1.IH"(2)[OF False, of q] Suc show ?thesis by auto
    qed
  qed
next
  case (2 a)
  show ?case
  proof (cases p)
    case 0
    then show ?thesis by (intro exI[of _ "[a]"]) simp
  next
    case (Suc q)
    then show ?thesis by (intro exI[of _ "[]"]) simp
  qed
next
  case 3
  show ?case by (intro exI[of _ "[]"]) simp
qed

lemma spread_concat_take: "spread (concat (take c (spread s))) = take c (spread s)"
proof (induction s arbitrary: c rule: spread.induct)
  case (1 a b rest)
  show ?case
  proof (cases c)
    case 0
    then show ?thesis by simp
  next
    case (Suc k)
    show ?thesis
    proof (cases "isLeadingSurrogate a \<and> isTrailingSurrogate b")
      case True
      with "1.IH"(1)[OF True, of k] Suc show ?thesis by simp
    next
      case False
      have sab: "spread (a # b # rest) = [a] # spread (b # rest)"
        using False by simp
      show ?thesis
      proof (cases k)
        case 0
        with sab \<open>c = Suc k\<close> show ?thesis by simp
      next
        case (Suc k')
        obtain y ys where sp: "spread (b # rest) = (b # y) # ys"
          using spread_Cons by blast
        have ih: "spread (concat (take k (spread (b # rest)))) = take k (spread (b # rest))"
          by (rule "1.IH"(2)[OF False])
        have "concat (take k (spread (b # rest))) = b # (y @ concat (take k' ys))"
          by (simp add: sp Suc)
        then obtain X where X: "concat (take k (spread (b # rest))) = b # X" by blast
        have "spread (a # b # X) = [a] # spread (b # X)"
          using False by simp
        then have "spread (a # concat (take k (spread (b # rest)))) =
                   [a] # take k (spread (b # rest))"
          using ih X by simp
        then show ?thesis
          using \<open>c = Suc k\<close> by (simp add: sab del: spread.simps)
      qed
    qed
  qed
next
  case (2 a)
  show ?case by (cases c) simp_all
next
  case 3
  show ?case by simp
qed

text \<open>A run of characters of the input decomposes into those characters again.\<close>

lemma spread_concat_sub:
  "spread (concat (take c (drop p (spread s)))) = take c (drop p (spread s))"
proof -
  obtain t where "drop p (spread s) = spread t" using spread_drop by blast
  then show ?thesis by (simp add: spread_concat_take)
qed

lemma spread_short: "length r < 2 \<Longrightarrow> length (spread r) = length r"
  by (cases r rule: spread.cases) simp_all

lemma length_concat_single:
  "list_all (\<lambda>c. length c = 1) cs \<Longrightarrow> length (concat cs) = length cs"
  by (induction cs) simp_all

lemma list_all_sub:
  "list_all P cs \<Longrightarrow> list_all P (take c (drop p cs))"
  by (auto simp: list_all_iff dest: in_set_takeD in_set_dropD)

lemma multiByteMode_advance [simp]: "multiByteMode (advance sc n) = multiByteMode sc"
  by (simp add: advance_def)

lemma charLength_sub:
  assumes "multiByteMode sc = (length (spread s) \<noteq> length s)"
  shows "charLength sc (concat (take c (drop p (spread s)))) =
         int (length (take c (drop p (spread s))))"
proof (cases "multiByteMode sc")
  case False
  with assms have "length (spread s) = length s" by simp
  then have "list_all (\<lambda>c. length c = 1) (take c (drop p (spread s)))"
    by (intro list_all_sub spread_all_single)
  then show ?thesis using False
    by (simp add: charLength_def Let_def length_concat_single del: length_take length_drop)
next
  case True
  have "length (spread (concat (take c (drop p (spread s))))) = length (take c (drop p (spread s)))"
    by (simp only: spread_concat_sub)
  then show ?thesis using True spread_short[of "concat (take c (drop p (spread s)))"]
    by (simp add: charLength_def Let_def length_replaceSurrogatePairs del: length_take length_drop)
qed

lemma scannerAt_eq:
  "scannerAt s p = (constructor s)\<lparr>charIndex := int (min p (length (spread s)))\<rparr>"
  by (simp add: scannerAt_def advance_def constructor_def Let_def min_def)

lemma scannerAt_fields [simp]:
  "charIndex (scannerAt s p) = int (min p (length (spread s)))"
  "charCount (scannerAt s p) = int (length (spread s))"
  "string (scannerAt s p) = s"
  "chars (scannerAt s p) = spread s"
  "multiByteMode (scannerAt s p) = (length (spread s) \<noteq> length s)"
  "byteAt (scannerAt s p) k = byteAt (constructor s) k"
  by (simp_all add: scannerAt_eq)

lemma clamp_arith:
  "0 \<le> c \<Longrightarrow> q \<le> n \<Longrightarrow> min (int n) (int q + c) = int q + int (min (nat c) (n - q))"
  by linarith

lemma peek_scannerAt:
  assumes "0 \<le> c"
  shows "peek (scannerAt s p) c =
         Some (concat (take (nat c) (drop (min p (length (spread s))) (spread s))))"
proof (cases "p < length (spread s)")
  case False
  then show ?thesis by (simp add: peek_def emptyString_def min_def)
next
  case True
  then have q: "min p (length (spread s)) = p" by simp
  show ?thesis
  proof (cases "c = 1")
    case True
    with \<open>p < length (spread s)\<close> show ?thesis
      by (simp add: peek_def aget_def q take_Suc_conv_app_nth)
  next
    case False
    have e: "int p + c = int (p + nat c)" using assms by simp
    have "jsslice s (byteAt (constructor s) (int p)) (byteAt (constructor s) (int p + c)) =
          concat (take (nat c) (drop p (spread s)))"
      unfolding e using slice_byteAt[OF True, of "p + nat c"] by simp
    with False True show ?thesis by (simp add: peek_def q)
  qed
qed

text \<open>
  Claim C6, as amended. For every non-negative count and every position from 0 to the
  character count, \<open>peek\<close> changes nothing (it only returns a value), \<open>consume\<close> returns
  what \<open>peek\<close> returns in the same state, and after \<open>consume\<close> the position is the
  earlier one plus the number of logical characters of the returned string.
\<close>

theorem peek_consume_duality:
  assumes "0 \<le> c"
  shows "fst (consume (scannerAt s p) c) = peek (scannerAt s p) c \<and>
         (\<exists>r. peek (scannerAt s p) c = Some r \<and>
              charLength (scannerAt s p) r = int (length (spread r)) \<and>
              charIndex (snd (consume (scannerAt s p) c)) =
                charIndex (scannerAt s p) + charLength (scannerAt s p) r)"
proof -
  let ?q = "min p (length (spread s))"
  let ?r = "concat (take (nat c) (drop ?q (spread s)))"
  have pk: "peek (scannerAt s p) c = Some ?r" by (rule peek_scannerAt[OF assms])
  have cl: "charLength (scannerAt s p) ?r = int (length (take (nat c) (drop ?q (spread s))))"
    by (rule charLength_sub) simp
  have sp: "int (length (spread ?r)) = int (length (take (nat c) (drop ?q (spread s))))"
    by (simp only: spread_concat_sub)
  have adv: "charIndex (snd (consume (scannerAt s p) c)) =
             charIndex (scannerAt s p) + int (length (take (nat c) (drop ?q (spread s))))"
    using clamp_arith[OF assms, of ?q "length (spread s)"]
    by (simp add: consume_def advance_def Let_def min.commute)
  show ?thesis
    using pk cl sp adv by (simp add: consume_def Let_def del: length_take length_drop)
qed

text \<open>
  With a negative count the claim fails: at position 1 of \<open>ab\<close>, \<open>consume(-1)\<close> returns
  the empty string and moves the position back to 0.
\<close>

theorem peek_consume_duality_counterexample:
  "peek (scannerAt (utf16 ''ab'') 1) (- 1) = Some [] \<and>
   fst (consume (scannerAt (utf16 ''ab'') 1) (- 1)) = Some [] \<and>
   charIndex (scannerAt (utf16 ''ab'') 1) = 1 \<and>
   charLength (scannerAt (utf16 ''ab'') 1) [] = 0 \<and>
   charIndex (snd (consume (scannerAt (utf16 ''ab'') 1) (- 1))) = 0"
  by code_simp

theorem peek_consume_duality_witness:
  "(0 :: int) \<le> 2 \<and>
   peek (scannerAt [0x61, 0xD83D, 0xDCA9, 0x62] 1) 2 = Some [0xD83D, 0xDCA9, 0x62] \<and>
   fst (consume (scannerAt [0x61, 0xD83D, 0xDCA9, 0x62] 1) 2) = Some [0xD83D, 0xDCA9, 0x62] \<and>
   charLength (scannerAt [0x61, 0xD83D, 0xDCA9, 0x62] 1) [0xD83D, 0xDCA9, 0x62] = 2 \<and>
   charIndex (snd (consume (scannerAt [0x61, 0xD83D, 0xDCA9, 0x62] 1) 2)) = 3"
proof -
  have h: "(0 :: int) \<le> 2" by simp
  have pk: "peek (scannerAt [0x61, 0xD83D, 0xDCA9, 0x62] 1) 2 = Some [0xD83D, 0xDCA9, 0x62]"
    by code_simp
  have cl: "charLength (scannerAt [0x61, 0xD83D, 0xDCA9, 0x62] 1) [0xD83D, 0xDCA9, 0x62] = 2"
    by code_simp
  have ci: "charIndex (scannerAt [0x61, 0xD83D, 0xDCA9, 0x62] 1) = 1"
    by code_simp
  from peek_consume_duality[OF h, of "[0x61, 0xD83D, 0xDCA9, 0x62]" 1]
  obtain r where
    f: "fst (consume (scannerAt [0x61, 0xD83D, 0xDCA9, 0x62] 1) 2) =
        peek (scannerAt [0x61, 0xD83D, 0xDCA9, 0x62] 1) 2" and
    r: "peek (scannerAt [0x61, 0xD83D, 0xDCA9, 0x62] 1) 2 = Some r" and
    a: "charIndex (snd (consume (scannerAt [0x61, 0xD83D, 0xDCA9, 0x62] 1) 2)) =
        charIndex (scannerAt [0x61, 0xD83D, 0xDCA9, 0x62] 1) +
        charLength (scannerAt [0x61, 0xD83D, 0xDCA9, 0x62] 1) r"
    by blast
  from r pk have e: "r = [0xD83D, 0xDCA9, 0x62]" by (simp only: option.inject)
  have "fst (consume (scannerAt [0x61, 0xD83D, 0xDCA9, 0x62] 1) 2) = Some [0xD83D, 0xDCA9, 0x62]"
    using f pk by (simp only:)
  moreover have "charIndex (snd (consume (scannerAt [0x61, 0xD83D, 0xDCA9, 0x62] 1) 2)) = 3"
    using a unfolding e cl ci by simp
  ultimately
  show ?thesis using h pk cl by (intro conjI)
qed

section \<open>A call that returns nothing consumes nothing\<close>

lemma charLength_Nil [simp]: "charLength sc [] = 0"
  by (simp add: charLength_def)

lemma advance_0: "charIndex sc \<le> charCount sc \<Longrightarrow> advance sc 0 = sc"
  by (simp add: advance_def min_def)

lemma advance_at_end: "charIndex sc = charCount sc \<Longrightarrow> 0 \<le> n \<Longrightarrow> advance sc n = sc"
  by (simp add: advance_def min_def)


lemma consumeMatch_shape:
  "fst (snd (consumeMatch sc re)) = sc \<or>
   (\<exists>m. fst (consumeMatch sc re) = Inr m \<and>
        fst (snd (consumeMatch sc re)) = advance sc (charLength sc m))"
proof (cases "sticky re")
  case False
  then show ?thesis by (simp add: consumeMatch_def)
next
  case True
  obtain result re2 where
    e: "exec (re\<lparr>lastIndex := byteAt sc (charIndex sc)\<rparr>) (string sc) = (result, re2)"
    by (cases "exec (re\<lparr>lastIndex := byteAt sc (charIndex sc)\<rparr>) (string sc)")
  show ?thesis
  proof (cases result)
    case None
    with True e show ?thesis by (simp add: consumeMatch_def)
  next
    case (Some r)
    with True e show ?thesis by (simp add: consumeMatch_def Let_def)
  qed
qed

lemma consumeUntilMatch_shape:
  "fst (snd (consumeUntilMatch sc re)) = sc \<or>
   (\<exists>m. fst (consumeUntilMatch sc re) = Inr m \<and>
        fst (snd (consumeUntilMatch sc re)) = advance sc (charLength sc m))"
proof (cases "global re")
  case False
  then show ?thesis by (simp add: consumeUntilMatch_def)
next
  case True
  obtain result re2 where
    e: "exec (re\<lparr>lastIndex := byteAt sc (charIndex sc)\<rparr>) (string sc) = (result, re2)"
    by (cases "exec (re\<lparr>lastIndex := byteAt sc (charIndex sc)\<rparr>) (string sc)")
  show ?thesis
  proof (cases result)
    case None
    with True e show ?thesis by (simp add: consumeUntilMatch_def Let_def)
  next
    case (Some r)
    with True e show ?thesis by (simp add: consumeUntilMatch_def Let_def)
  qed
qed

lemma consumeUntilString_shape:
  "snd (consumeUntilString sc str) = sc \<or>
   snd (consumeUntilString sc str) = advance sc (charLength sc (fst (consumeUntilString sc str)))"
  by (simp add: consumeUntilString_def Let_def)











section \<open>The end of the input\<close>

lemma peek_at_end: "charIndex sc = charCount sc \<Longrightarrow> peek sc c = Some []"
  by (simp add: peek_def emptyString_def)

lemma consumeStringFast_at_end:
  assumes "charIndex sc = charCount sc"
  shows "consumeStringFast sc L = ([], sc)"
proof -
  have "firstUnit L \<noteq> Some []" by (cases L) (simp_all add: firstUnit_def)
  then have "peek sc 1 \<noteq> firstUnit L" using peek_at_end[OF assms, of 1] by simp
  then show ?thesis by (simp add: consumeStringFast_def emptyString_def)
qed

lemma consumeString_at_end:
  assumes "charIndex sc = charCount sc"
  shows "consumeString sc L = ([], sc)"
proof (cases "L = []")
  case True
  then show ?thesis
    by (simp add: consumeString_def consumeStringFast_at_end[OF assms] emptyString_def)
next
  case False
  then show ?thesis
    by (auto simp: consumeString_def consumeStringFast_at_end[OF assms] emptyString_def
      peek_at_end[OF assms] Let_def)
qed

lemma consumeMatchFn_at_end:
  assumes "charIndex sc = charCount sc"
  shows "consumeMatchFn sc fn = ([], sc)"
proof -
  have "consumeMatchFn_loop sc fn = sc"
    using assms by (subst consumeMatchFn_loop.simps) (simp add: isEnd_def)
  then show ?thesis by (simp add: consumeMatchFn_def emptyString_def)
qed

text \<open>
  Claim C3, as amended. In a state whose position equals the character count:
  \<open>consume\<close> with a non-negative count, \<open>consumeString\<close>, \<open>consumeStringFast\<close> and
  \<open>consumeMatchFn\<close> return the empty string and leave the scanner as it was;
  \<open>consumeMatch\<close> with a sticky pattern and \<open>consumeUntilMatch\<close> with a global pattern
  return a string, not an error, and leave the scanner as it was; \<open>consumeUntilString\<close>,
  which has no error result, leaves the scanner as it was. Which string the last three
  return there is not part of this statement.
\<close>

theorem end_of_input_policy:
  assumes "charIndex sc = charCount sc"
  shows "(0 \<le> c \<longrightarrow> consume sc c = (Some [], sc)) \<and>
         consumeString sc L = ([], sc) \<and>
         consumeStringFast sc L = ([], sc) \<and>
         consumeMatchFn sc fn = ([], sc) \<and>
         (sticky re \<longrightarrow> (\<exists>m. fst (consumeMatch sc re) = Inr m)) \<and>
         fst (snd (consumeMatch sc re)) = sc \<and>
         (global ru \<longrightarrow> (\<exists>m. fst (consumeUntilMatch sc ru) = Inr m)) \<and>
         fst (snd (consumeUntilMatch sc ru)) = sc \<and>
         snd (consumeUntilString sc L) = sc"
proof -
  have a: "0 \<le> c \<longrightarrow> consume sc c = (Some [], sc)"
    using assms by (simp add: consume_def Let_def peek_at_end advance_at_end)
  have mr: "sticky re \<longrightarrow> (\<exists>m. fst (consumeMatch sc re) = Inr m)"
  proof
    assume "sticky re"
    then have "\<not> isl (fst (consumeMatch sc re))" by (simp add: consumeMatch_isl)
    then show "\<exists>m. fst (consumeMatch sc re) = Inr m"
      by (cases "fst (consumeMatch sc re)") simp_all
  qed
  have m: "fst (snd (consumeMatch sc re)) = sc"
    using consumeMatch_shape[of sc re] assms
    by (auto simp: advance_at_end charLength_nonneg)
  have ur: "global ru \<longrightarrow> (\<exists>m. fst (consumeUntilMatch sc ru) = Inr m)"
  proof
    assume "global ru"
    then have "\<not> isl (fst (consumeUntilMatch sc ru))" by (simp add: consumeUntilMatch_isl)
    then show "\<exists>m. fst (consumeUntilMatch sc ru) = Inr m"
      by (cases "fst (consumeUntilMatch sc ru)") simp_all
  qed
  have u: "fst (snd (consumeUntilMatch sc ru)) = sc"
    using consumeUntilMatch_shape[of sc ru] assms
    by (auto simp: advance_at_end charLength_nonneg)
  have t: "snd (consumeUntilString sc L) = sc"
    using consumeUntilString_shape[of sc L] assms
    by (auto simp: advance_at_end charLength_nonneg)
  have s: "consumeString sc L = ([], sc)" by (rule consumeString_at_end[OF assms])
  have f: "consumeStringFast sc L = ([], sc)" by (rule consumeStringFast_at_end[OF assms])
  have p: "consumeMatchFn sc fn = ([], sc)" by (rule consumeMatchFn_at_end[OF assms])
  show ?thesis by (intro conjI a s f p mr m ur u t)
qed

text \<open>
  At the end of \<open>ab1\<close> the table has no entry for the position, the search starts at
  offset 0, and the two scan-ahead calls return text from the start of the input; and
  \<open>consume\<close> with a negative count moves the position back.
\<close>

theorem end_of_input_policy_counterexample:
  "charIndex (scannerAt (utf16 ''ab1'') 3) = charCount (scannerAt (utf16 ''ab1'') 3) \<and>
   fst (consumeUntilString (scannerAt (utf16 ''ab1'') 3) (utf16 ''b'')) = utf16 ''a'' \<and>
   fst (consumeUntilMatch (scannerAt (utf16 ''ab1'') 3) digitsG) = Inr (utf16 ''ab'') \<and>
   fst (consume (scannerAt (utf16 ''ab1'') 3) (- 1)) = Some [] \<and>
   charIndex (snd (consume (scannerAt (utf16 ''ab1'') 3) (- 1))) = 2"
  by code_simp

theorem end_of_input_policy_witness:
  "charIndex (scannerAt (utf16 ''ab1'') 3) = charCount (scannerAt (utf16 ''ab1'') 3) \<and>
   (0 :: int) \<le> 2 \<and>
   sticky digitsY \<and>
   global digitsG \<and>
   consume (scannerAt (utf16 ''ab1'') 3) 2 = (Some [], scannerAt (utf16 ''ab1'') 3) \<and>
   consumeString (scannerAt (utf16 ''ab1'') 3) (utf16 ''b'') = ([], scannerAt (utf16 ''ab1'') 3) \<and>
   (\<exists>m. fst (consumeMatch (scannerAt (utf16 ''ab1'') 3) digitsY) = Inr m) \<and>
   fst (snd (consumeMatch (scannerAt (utf16 ''ab1'') 3) digitsY)) = scannerAt (utf16 ''ab1'') 3 \<and>
   (\<exists>m. fst (consumeUntilMatch (scannerAt (utf16 ''ab1'') 3) digitsG) = Inr m) \<and>
   fst (snd (consumeUntilMatch (scannerAt (utf16 ''ab1'') 3) digitsG)) = scannerAt (utf16 ''ab1'') 3"
proof -
  have h: "charIndex (scannerAt (utf16 ''ab1'') 3) = charCount (scannerAt (utf16 ''ab1'') 3)"
    by code_simp
  have c: "(0 :: int) \<le> 2" by simp
  have y: "sticky digitsY" by (simp add: digitsY_def)
  have g: "global digitsG" by (simp add: digitsG_def)
  note T = end_of_input_policy[OF h, of 2 "utf16 ''b''" _ digitsY digitsG]
  from T c have 1: "consume (scannerAt (utf16 ''ab1'') 3) 2 = (Some [], scannerAt (utf16 ''ab1'') 3)"
    by blast
  from T have 2: "consumeString (scannerAt (utf16 ''ab1'') 3) (utf16 ''b'') =
      ([], scannerAt (utf16 ''ab1'') 3)"
    by blast
  from T y have 3: "\<exists>m. fst (consumeMatch (scannerAt (utf16 ''ab1'') 3) digitsY) = Inr m"
    by blast
  from T have 4: "fst (snd (consumeMatch (scannerAt (utf16 ''ab1'') 3) digitsY)) =
      scannerAt (utf16 ''ab1'') 3"
    by blast
  from T g have 5: "\<exists>m. fst (consumeUntilMatch (scannerAt (utf16 ''ab1'') 3) digitsG) = Inr m"
    by blast
  from T have 6: "fst (snd (consumeUntilMatch (scannerAt (utf16 ''ab1'') 3) digitsG)) =
      scannerAt (utf16 ''ab1'') 3"
    by blast
  show ?thesis by (intro conjI h c y g 1 2 3 4 5 6)
qed

section \<open>The anchored match\<close>

text \<open>
  Claim C2, at the end of the input. On \<open>42\<close> at position 2, the character count,
  \<^verbatim>\<open>charsToBytes[2]\<close> is \<open>undefined\<close>; the pattern's \<open>lastIndex\<close> is set to it,
  \<open>exec\<close> reads it as 0, and the sticky pattern \<^verbatim>\<open>\\d+\<close> matches at offset 0:
  \<open>consumeMatch\<close> returns \<open>42\<close> and the position stays 2.
\<close>

theorem consumeMatch_at_end_of_input:
  "charIndex (scannerAt (utf16 ''42'') 2) = 2 \<and>
   charCount (scannerAt (utf16 ''42'') 2) = 2 \<and>
   sticky digitsY \<and>
   byteAt (scannerAt (utf16 ''42'') 2) 2 = None \<and>
   fst (consumeMatch (scannerAt (utf16 ''42'') 2) digitsY) = Inr (utf16 ''42'') \<and>
   charIndex (fst (snd (consumeMatch (scannerAt (utf16 ''42'') 2) digitsY))) = 2 \<and>
   lastIndex (snd (snd (consumeMatch (scannerAt (utf16 ''42'') 2) digitsY))) = Some 2"
  by code_simp

text \<open>
  Before the end of the input the call is anchored at the position: on \<open>  42px\<close>, at
  position 2 it returns \<open>42\<close> and moves to 4, and at position 4 it returns the empty
  string and stays.
\<close>

lemma consumeMatch_scenario:
  "fst (consumeMatch (scannerAt (utf16 ''  42px'') 2) digitsY) = Inr (utf16 ''42'') \<and>
   charIndex (fst (snd (consumeMatch (scannerAt (utf16 ''  42px'') 2) digitsY))) = 4 \<and>
   fst (consumeMatch (scannerAt (utf16 ''  42px'') 4) digitsY) = Inr [] \<and>
   charIndex (fst (snd (consumeMatch (scannerAt (utf16 ''  42px'') 4) digitsY))) = 4"
  by code_simp

section \<open>Scanning ahead to a literal\<close>

lemma occursAt_bound: "occursAt s search j \<Longrightarrow> j \<le> length s"
  by (simp add: occursAt_def)

lemma indexOfFrom_spec:
  "(indexOfFrom s search i = - 1 \<and> (\<forall>j\<ge>i. \<not> occursAt s search j)) \<or>
   (\<exists>m\<ge>i. indexOfFrom s search i = int m \<and> occursAt s search m \<and>
           (\<forall>j. i \<le> j \<and> j < m \<longrightarrow> \<not> occursAt s search j))"
proof (induction s search i rule: indexOfFrom.induct)
  case (1 s search i)
  show ?case
  proof (cases "i + length search \<le> length s")
    case False
    then have "indexOfFrom s search i = - 1"
      by (subst indexOfFrom.simps) simp
    moreover have "\<forall>j\<ge>i. \<not> occursAt s search j"
      using False by (auto simp: occursAt_def)
    ultimately show ?thesis by blast
  next
    case True
    show ?thesis
    proof (cases "take (length search) (drop i s) = search")
      case here: True
      then have "indexOfFrom s search i = int i"
        using True by (subst indexOfFrom.simps) simp
      moreover have "occursAt s search i"
        using True here by (simp add: occursAt_def)
      ultimately show ?thesis by auto
    next
      case False
      then have e: "indexOfFrom s search i = indexOfFrom s search (i + 1)"
        using True by (subst indexOfFrom.simps) simp
      have ni: "\<not> occursAt s search i"
        using False by (simp add: occursAt_def)
      have step: "\<And>j. i \<le> j \<Longrightarrow> j = i \<or> i + 1 \<le> j" by linarith
      from "1.IH"[OF True False] show ?thesis
      proof
        assume a: "indexOfFrom s search (i + 1) = - 1 \<and> (\<forall>j\<ge>i + 1. \<not> occursAt s search j)"
        then have "\<forall>j\<ge>i. \<not> occursAt s search j"
          using ni step by blast
        with a e show ?thesis by simp
      next
        assume "\<exists>m\<ge>i + 1. indexOfFrom s search (i + 1) = int m \<and> occursAt s search m \<and>
           (\<forall>j. i + 1 \<le> j \<and> j < m \<longrightarrow> \<not> occursAt s search j)"
        then obtain m where m: "i + 1 \<le> m" "indexOfFrom s search (i + 1) = int m"
          "occursAt s search m" "\<forall>j. i + 1 \<le> j \<and> j < m \<longrightarrow> \<not> occursAt s search j"
          by blast
        have "\<forall>j. i \<le> j \<and> j < m \<longrightarrow> \<not> occursAt s search j"
          using m(4) ni step by blast
        with m e show ?thesis
          by (intro disjI2 exI[of _ m]) simp
      qed
    qed
  qed
qed

lemma indexOf_Some:
  "b \<le> length s \<Longrightarrow> indexOf s search (Some (int b)) = indexOfFrom s search b"
  by (simp add: indexOf_def Let_def min_def max_def)

lemma offs_strict:
  assumes "offs cs i < offs cs j"
  shows "i < j"
proof (rule ccontr)
  assume "\<not> i < j"
  then have "j \<le> i" by simp
  from offs_mono[OF this, of cs] assms show False by simp
qed

text \<open>
  Claim C5, as amended. In a state with the position before the end of the input,
  \<open>indexOf\<close> gives the first index at or after the byte offset of the position where the
  search string occurs, or \<open>-1\<close>. When that index is after the offset,
  \<open>consumeUntilString\<close> returns the code units between the two and advances by the
  character length of that text, which brings the position to the occurrence whenever
  the occurrence starts at an entry of the table, a character boundary. When the
  occurrence is at the offset, or there is none, it returns the empty string and the
  scanner is as it was.
\<close>

theorem consumeUntilString_scan:
  fixes s search :: jsstring and p :: nat
  defines "sc \<equiv> scannerAt s p"
  defines "m \<equiv> indexOf s search (byteAt sc (charIndex sc))"
  assumes "p < length (spread s)"
  shows "\<exists>b. byteAt sc (charIndex sc) = Some (int b) \<and> b \<le> length s \<and>
           ((m = - 1 \<and> (\<forall>j\<ge>b. \<not> occursAt s search j)) \<or>
            (int b \<le> m \<and> occursAt s search (nat m) \<and>
             (\<forall>j. b \<le> j \<and> j < nat m \<longrightarrow> \<not> occursAt s search j))) \<and>
           (int b < m \<longrightarrow>
              fst (consumeUntilString sc search) = take (nat m - b) (drop b s) \<and>
              snd (consumeUntilString sc search) =
                advance sc (charLength sc (fst (consumeUntilString sc search))) \<and>
              (\<forall>j. byteAt sc (int j) = Some m \<longrightarrow>
                   charIndex (snd (consumeUntilString sc search)) = int j)) \<and>
           (m \<le> int b \<longrightarrow> consumeUntilString sc search = ([], sc))"
proof -
  let ?cs = "spread s"
  let ?b = "offs ?cs p"
  have q: "min p (length ?cs) = p" using assms(3) by simp
  have bi: "byteAt sc (charIndex sc) = Some (int ?b)"
    using assms(3) by (simp add: sc_def q byteAt_constructor)
  have bl: "?b \<le> length s" by (rule offs_spread_le)
  have mm: "m = indexOfFrom s search ?b"
    by (simp add: m_def bi indexOf_Some[OF bl])
  have sp: "(m = - 1 \<and> (\<forall>j\<ge>?b. \<not> occursAt s search j)) \<or>
            (int ?b \<le> m \<and> occursAt s search (nat m) \<and>
             (\<forall>j. ?b \<le> j \<and> j < nat m \<longrightarrow> \<not> occursAt s search j))"
    using indexOfFrom_spec[of s search ?b] unfolding mm by auto
  have st: "string sc = s" by (simp add: sc_def)
  have mdef: "indexOf s search (Some (int ?b)) = m" by (simp add: m_def bi)
  have found: "int ?b < m \<longrightarrow>
              fst (consumeUntilString sc search) = take (nat m - ?b) (drop ?b s) \<and>
              snd (consumeUntilString sc search) =
                advance sc (charLength sc (fst (consumeUntilString sc search))) \<and>
              (\<forall>j. byteAt sc (int j) = Some m \<longrightarrow>
                   charIndex (snd (consumeUntilString sc search)) = int j)"
  proof
    assume lt: "int ?b < m"
    with sp have oc: "occursAt s search (nat m)" by auto
    then have ml: "nat m \<le> length s" by (rule occursAt_bound)
    have m0: "\<not> m \<le> 0" using lt by simp
    have mi: "m = int (nat m)" using lt by simp
    have "jsslice s (Some (int ?b)) (Some (int (nat m))) = take (nat m - ?b) (drop ?b s)"
      using lt ml by (intro slice_Some_Some) simp_all
    then have sl: "jsslice s (Some (int ?b)) (Some m) = take (nat m - ?b) (drop ?b s)"
      using mi by simp
    have res: "consumeUntilString sc search =
          (take (nat m - ?b) (drop ?b s),
           advance sc (charLength sc (take (nat m - ?b) (drop ?b s))))"
      using m0 sl by (simp add: consumeUntilString_def Let_def bi st mdef)
    have bd: "\<forall>j. byteAt sc (int j) = Some m \<longrightarrow>
                 charIndex (snd (consumeUntilString sc search)) = int j"
    proof (intro allI impI)
      fix j assume j: "byteAt sc (int j) = Some m"
      then have jn: "j < length ?cs" and jm: "int (offs ?cs j) = m"
        by (simp_all add: sc_def byteAt_constructor split: if_splits)
      from jm lt have "offs ?cs p < offs ?cs j" by simp
      then have pj: "p < j" by (rule offs_strict)
      then have pj': "p \<le> j" by simp
      have "nat m = offs ?cs j" using jm by simp
      then have "take (nat m - ?b) (drop ?b s) = concat (take (j - p) (drop p ?cs))"
        using between_offs[OF pj', of ?cs] by simp
      moreover have "charLength sc (concat (take (j - p) (drop p ?cs))) =
                     int (length (take (j - p) (drop p ?cs)))"
        by (rule charLength_sub) (simp add: sc_def)
      moreover have "length (take (j - p) (drop p ?cs)) = j - p"
        using jn pj by simp
      ultimately have "charLength sc (take (nat m - ?b) (drop ?b s)) = int (j - p)"
        by simp
      then show "charIndex (snd (consumeUntilString sc search)) = int j"
        using res jn pj by (simp add: advance_def sc_def q)
    qed
    from res bd show "fst (consumeUntilString sc search) = take (nat m - ?b) (drop ?b s) \<and>
              snd (consumeUntilString sc search) =
                advance sc (charLength sc (fst (consumeUntilString sc search))) \<and>
              (\<forall>j. byteAt sc (int j) = Some m \<longrightarrow>
                   charIndex (snd (consumeUntilString sc search)) = int j)"
      by simp
  qed
  have none: "m \<le> int ?b \<longrightarrow> consumeUntilString sc search = ([], sc)"
  proof
    assume mb: "m \<le> int ?b"
    show "consumeUntilString sc search = ([], sc)"
    proof (cases "m \<le> 0")
      case True
      then show ?thesis
        by (simp add: consumeUntilString_def Let_def emptyString_def bi st mdef)
    next
      case False
      with sp mb have e: "m = int ?b" by auto
      have "jsslice s (Some (int ?b)) (Some (int ?b)) = []"
        by (simp add: jsslice_def Let_def)
      moreover have "advance sc 0 = sc"
        by (rule advance_0) (simp add: sc_def)
      ultimately show ?thesis using False
        by (simp add: consumeUntilString_def Let_def bi st mdef e emptyString_def)
    qed
  qed
  from bi bl sp found none show ?thesis by blast
qed


text \<open>
  The search is over code units, so an occurrence can start inside a surrogate pair:
  searching the trailing surrogate in a one-character input returns the leading
  surrogate alone and moves the position past the whole character, the occurrence
  included.
\<close>

theorem consumeUntilString_scan_counterexample:
  "charIndex (scannerAt [0xD83D, 0xDCA9] 0) = 0 \<and>
   charCount (scannerAt [0xD83D, 0xDCA9] 0) = 1 \<and>
   chars (scannerAt [0xD83D, 0xDCA9] 0) = [[0xD83D, 0xDCA9]] \<and>
   indexOf [0xD83D, 0xDCA9] [0xDCA9] (byteAt (scannerAt [0xD83D, 0xDCA9] 0) 0) = 1 \<and>
   fst (consumeUntilString (scannerAt [0xD83D, 0xDCA9] 0) [0xDCA9]) = [0xD83D] \<and>
   charIndex (snd (consumeUntilString (scannerAt [0xD83D, 0xDCA9] 0) [0xDCA9])) = 1"
  by code_simp

theorem consumeUntilString_scan_witness:
  "0 < length (spread scenarioB) \<and>
   indexOf scenarioB (utf16 ''</a>'')
     (byteAt (scannerAt scenarioB 0) (charIndex (scannerAt scenarioB 0))) = 5 \<and>
   byteAt (scannerAt scenarioB 0) 4 = Some 5 \<and>
   fst (consumeUntilString (scannerAt scenarioB 0) (utf16 ''</a>'')) =
     utf16 ''<a>'' @ [0xD83D, 0xDCA9] \<and>
   charIndex (snd (consumeUntilString (scannerAt scenarioB 0) (utf16 ''</a>''))) = 4"
proof -
  have h: "0 < length (spread scenarioB)" by code_simp
  have m: "indexOf scenarioB (utf16 ''</a>'')
     (byteAt (scannerAt scenarioB 0) (charIndex (scannerAt scenarioB 0))) = 5" by code_simp
  have b0: "byteAt (scannerAt scenarioB 0) (charIndex (scannerAt scenarioB 0)) = Some 0"
    by code_simp
  have b4: "byteAt (scannerAt scenarioB 0) (int 4) = Some 5" by code_simp
  have r: "fst (consumeUntilString (scannerAt scenarioB 0) (utf16 ''</a>'')) =
     utf16 ''<a>'' @ [0xD83D, 0xDCA9]" by code_simp
  from consumeUntilString_scan[OF h, of "utf16 ''</a>''"] obtain b where
    b: "byteAt (scannerAt scenarioB 0) (charIndex (scannerAt scenarioB 0)) = Some (int b)" and
    f: "int b < indexOf scenarioB (utf16 ''</a>'')
           (byteAt (scannerAt scenarioB 0) (charIndex (scannerAt scenarioB 0))) \<longrightarrow>
        (\<forall>j. byteAt (scannerAt scenarioB 0) (int j) =
               Some (indexOf scenarioB (utf16 ''</a>'')
                 (byteAt (scannerAt scenarioB 0) (charIndex (scannerAt scenarioB 0)))) \<longrightarrow>
             charIndex (snd (consumeUntilString (scannerAt scenarioB 0) (utf16 ''</a>''))) = int j)"
    by blast
  from b b0 have "int b = 0" by (simp only: option.inject)
  with f have "\<forall>j. byteAt (scannerAt scenarioB 0) (int j) = Some 5 \<longrightarrow>
      charIndex (snd (consumeUntilString (scannerAt scenarioB 0) (utf16 ''</a>''))) = int j"
    unfolding m by simp
  then have "byteAt (scannerAt scenarioB 0) (int 4) = Some 5 \<longrightarrow>
      charIndex (snd (consumeUntilString (scannerAt scenarioB 0) (utf16 ''</a>''))) = int 4"
    by (rule spec)
  with b4 have p: "charIndex (snd (consumeUntilString (scannerAt scenarioB 0) (utf16 ''</a>''))) = 4"
    by simp
  have b4': "byteAt (scannerAt scenarioB 0) 4 = Some 5" using b4 by simp
  show ?thesis by (intro conjI h m b4' r p)
qed

section \<open>The anchored match before the end of the input\<close>

lemma spread_take_le: "length (spread (take k t)) \<le> length (spread t)"
proof (induction t arbitrary: k rule: spread.induct)
  case (1 a b rest)
  show ?case
  proof (cases k)
    case 0
    then show ?thesis by simp
  next
    case (Suc k1)
    show ?thesis
    proof (cases k1)
      case 0
      with Suc show ?thesis by simp
    next
      case (Suc k2)
      show ?thesis
      proof (cases "isLeadingSurrogate a \<and> isTrailingSurrogate b")
        case True
        with "1.IH"(1)[OF True, of k2] Suc \<open>k = Suc k1\<close> show ?thesis by simp
      next
        case False
        have "take k (a # b # rest) = a # b # take k2 rest"
          using Suc \<open>k = Suc k1\<close> by simp
        moreover have "take k1 (b # rest) = b # take k2 rest" using Suc by simp
        ultimately show ?thesis
          using "1.IH"(2)[OF False, of k1] False by auto
      qed
    qed
  qed
next
  case (2 a)
  show ?case by (cases k) simp_all
next
  case 3
  show ?case by simp
qed

lemma drop_offs: "drop (offs cs p) (concat cs) = concat (drop p cs)"
proof -
  have "concat cs = concat (take p cs) @ concat (drop p cs)"
    by (metis append_take_drop_id concat_append)
  then show ?thesis by (simp add: offs_def)
qed

lemma spread_drop_offs: "spread (drop (offs (spread s) p) s) = drop p (spread s)"
proof -
  obtain t where t: "drop p (spread s) = spread t" using spread_drop by blast
  have "drop (offs (spread s) p) s = concat (drop p (spread s))"
    using drop_offs[of "spread s" p] by simp
  then show ?thesis by (simp add: t)
qed

text \<open>Text that starts at a character of the input holds no more characters than remain.\<close>

lemma charLength_prefix:
  assumes "p < length (spread s)"
  shows "charLength (scannerAt s p) (take k (drop (offs (spread s) p) s)) \<le>
         int (length (spread s)) - int p"
proof -
  let ?m = "take k (drop (offs (spread s) p) s)"
  have sp: "length (spread ?m) \<le> length (spread s) - p"
    using spread_take_le[of k "drop (offs (spread s) p) s"]
    by (simp add: spread_drop_offs)
  show ?thesis
  proof (cases "length (spread s) = length s")
    case True
    then have "offs (spread s) p = p"
      using spread_all_single assms by (simp add: offs_single)
    then have "length ?m \<le> length s - p" by simp
    then show ?thesis using True assms by (simp add: charLength_def)
  next
    case False
    show ?thesis
    proof (cases "length ?m < 2")
      case True
      then show ?thesis using assms False by (simp add: charLength_def Let_def)
    next
      case long: False
      then show ?thesis using sp assms False
        by (simp add: charLength_def Let_def length_replaceSurrogatePairs)
    qed
  qed
qed

lemma execLoop_sticky:
  assumes "sticky re" "b \<le> length s"
  shows "execLoop re s b =
         (case matcher re s b of None \<Rightarrow> None | Some (e, caps) \<Rightarrow> Some (b, e, caps))"
  using assms by (subst execLoop.simps) (simp split: option.splits)

lemma ToLength_nat: "b < 2 ^ 53 \<Longrightarrow> ToLength (Some (int b)) = b"
  by (simp add: ToLength_def)

text \<open>
  Before the end of the input \<open>consumeMatch\<close> does what claim C2 says, for every sticky
  pattern: \<open>lastIndex\<close> is the byte offset of the position, the matcher is tried there
  and nowhere else, a match is returned and the position advances by its character
  length (the clamp of \<open>advance\<close> never applies), and without a match the result is the
  empty string and the scanner is as it was. The bound on the length of the input is
  the one under which \<open>ToLength\<close> is the identity.
\<close>

lemma consumeMatch_before_end:
  assumes "sticky re" and "p < length (spread s)" and "length s < 2 ^ 53"
  shows "byteAt (scannerAt s p) (charIndex (scannerAt s p)) = Some (int (offs (spread s) p)) \<and>
         (case matcher re s (offs (spread s) p) of
            None \<Rightarrow>
              consumeMatch (scannerAt s p) re =
                (Inr [], scannerAt s p, re\<lparr>lastIndex := Some 0\<rparr>)
          | Some (e, caps) \<Rightarrow>
              fst (consumeMatch (scannerAt s p) re) =
                Inr (take (e - offs (spread s) p) (drop (offs (spread s) p) s)) \<and>
              charIndex (fst (snd (consumeMatch (scannerAt s p) re))) =
                int p + charLength (scannerAt s p)
                  (take (e - offs (spread s) p) (drop (offs (spread s) p) s)) \<and>
              lastIndex (snd (snd (consumeMatch (scannerAt s p) re))) = Some (int e))"
proof -
  let ?sc = "scannerAt s p"
  let ?b = "offs (spread s) p"
  have q: "min p (length (spread s)) = p" using assms(2) by simp
  have bi: "byteAt ?sc (charIndex ?sc) = Some (int ?b)"
    using assms(2) by (simp add: q byteAt_constructor)
  have bl: "?b \<le> length s" by (rule offs_spread_le)
  then have tl: "ToLength (Some (int ?b)) = ?b"
    using assms(3) by (intro ToLength_nat) simp
  let ?re1 = "re\<lparr>lastIndex := Some (int ?b)\<rparr>"
  have st: "sticky ?re1" using assms(1) by simp
  have lp: "execLoop ?re1 s ?b =
      (case matcher re s ?b of None \<Rightarrow> None | Some (e, caps) \<Rightarrow> Some (?b, e, caps))"
    using execLoop_sticky[OF st bl] by simp
  show ?thesis
  proof (cases "matcher re s ?b")
    case None
    then have "exec ?re1 s = (None, re\<lparr>lastIndex := Some 0\<rparr>)"
      using assms(1) by (simp add: exec_def tl lp)
    then show ?thesis using None assms(1) bi
      by (simp add: consumeMatch_def emptyString_def)
  next
    case (Some ec)
    obtain e caps where ec: "ec = (e, caps)" by (cases ec)
    let ?m = "take (e - ?b) (drop ?b s)"
    have "exec ?re1 s =
          (Some \<lparr>index = int ?b, matched = ?m, captures = caps\<rparr>,
           re\<lparr>lastIndex := Some (int e)\<rparr>)"
      using assms(1) Some ec by (simp add: exec_def tl lp)
    then have cm: "consumeMatch ?sc re =
          (Inr ?m, advance ?sc (charLength ?sc ?m), re\<lparr>lastIndex := Some (int e)\<rparr>)"
      using assms(1) bi by (simp add: consumeMatch_def rlength_def Let_def)
    have "charLength ?sc ?m \<le> int (length (spread s)) - int p"
      by (rule charLength_prefix[OF assms(2)])
    then have "charIndex (advance ?sc (charLength ?sc ?m)) = int p + charLength ?sc ?m"
      by (simp add: advance_def q)
    with cm bi Some ec show ?thesis by simp
  qed
qed

subsection \<open>Scenarios of the specification\<close>

text \<open>
  The ASCII literal on \<^verbatim>\<open><foo>\<close>, the scan ahead to \<^verbatim>\<open>\\d+\<close> on
  \<^verbatim>\<open>abc123def\<close>, and the whitespace predicate on three spaces before \<open>hello\<close>.
\<close>

lemma scenario_A:
  "fst (consumeStringFast (scannerAt (utf16 ''<foo>'') 0) (utf16 ''<foo'')) = utf16 ''<foo'' \<and>
   charIndex (snd (consumeStringFast (scannerAt (utf16 ''<foo>'') 0) (utf16 ''<foo''))) = 4 \<and>
   peek (snd (consumeStringFast (scannerAt (utf16 ''<foo>'') 0) (utf16 ''<foo''))) 1 =
     Some (utf16 ''>'')"
  by code_simp

lemma scenario_D:
  "fst (consumeUntilMatch (scannerAt (utf16 ''abc123def'') 0) digitsG) = Inr (utf16 ''abc'') \<and>
   charIndex (fst (snd (consumeUntilMatch (scannerAt (utf16 ''abc123def'') 0) digitsG))) = 3"
  by code_simp

lemma scenario_E:
  "fst (consumeMatchFn (scannerAt (utf16 ''   hello'') 0) (\<lambda>c. c = Some (utf16 '' ''))) =
     utf16 ''   '' \<and>
   charIndex (snd (consumeMatchFn (scannerAt (utf16 ''   hello'') 0)
     (\<lambda>c. c = Some (utf16 '' '')))) = 3"
  by code_simp

end
